theory Spec2Isabelle
  imports Complex_Main "HOL-Library.Sublist"
begin

section \<open>Streaming TopoART: the data model\<close>

text \<open>
  The embedding follows \<^verbatim>\<open>src/classes/streamingtopoart.py\<close>. Weights and scores are
  numpy floats in the source; here they are exact reals, so the theorems below speak about the
  arithmetic of the update rule and not about rounding. The cycle counter, \<open>phi\<close> and
  \<open>tau\<close> are Python integers (unbounded), modelled as \<open>int\<close>.

  A Python exception leaves the object in the state it had when the exception was raised.
  The operations therefore return the state together with the exception, if any.
  \<open>IndexError\<close> and \<open>ValueError\<close> are the exceptions that list indexing and numpy
  broadcasting raise inside \<^verbatim>\<open>learn\<close>; \<open>ScoringError\<close> stands for any other
  exception of the scoring methods.
\<close>

datatype error = IndexError | ValueError | ScoringError

text \<open>
  The class \<^verbatim>\<open>prototype\<close> lives in \<^verbatim>\<open>base.py\<close>, which is not among the sources.
  Its fields are the ones the module reads and writes (\<open>weights\<close>, \<open>tag\<close>,
  \<open>lastactive\<close>, \<open>counter\<close>) and the ones its constructor call passes
  (\<open>weights\<close>, \<open>tag\<close>, \<open>birth\<close>).
\<close>

record prototype =
  weights :: "real list"
  tag :: string
  birth :: int
  lastactive :: int
  counter :: int

text \<open>
  The topology graph is a \<^verbatim>\<open>networkx.Graph\<close>: nodes in insertion order, and each
  undirected edge stored once.
\<close>

record graph =
  gnodes :: "string list"
  gedges :: "(string \<times> string) list"

text \<open>The fields of a \<^verbatim>\<open>StreamingTopoART\<close> instance.\<close>

record art =
  vigilance :: real
  alpha :: real
  beta :: real
  prototypes :: "prototype list"
  beta2 :: real
  phi :: int
  tau :: int
  cycle :: int
  clusters :: "string list list"
  network :: graph

text \<open>
  What the module takes from \<^verbatim>\<open>base.py\<close>, as parameters: the two scoring methods
  \<^verbatim>\<open>choice\<close> and \<^verbatim>\<open>match\<close> of \<^verbatim>\<open>BaseART\<close> (they read the instance and the
  input, return one score per prototype, and may raise), and the values that the constructor of
  \<^verbatim>\<open>prototype\<close> gives to the two fields it is not passed: \<open>lastactive\<close>, as a
  function of the birth cycle, and \<open>counter\<close>.
\<close>

record env =
  choice :: "art \<Rightarrow> real list \<Rightarrow> error + real list"
  match :: "art \<Rightarrow> real list \<Rightarrow> error + real list"
  lastactive0 :: "int \<Rightarrow> int"
  counter0 :: int

section \<open>numpy arithmetic on vectors\<close>

text \<open>
  A binary numpy operation on two one-dimensional arrays works elementwise when the lengths
  agree, broadcasts an array of length one, and raises \<^verbatim>\<open>ValueError\<close> otherwise.
\<close>

definition np_broadcast ::
  "(real \<Rightarrow> real \<Rightarrow> real) \<Rightarrow> real list \<Rightarrow> real list \<Rightarrow> error + real list" where
  "np_broadcast f xs ys =
     (if length xs = length ys then Inr (map2 f xs ys)
      else if length xs = 1 then Inr (map (f (hd xs)) ys)
      else if length ys = 1 then Inr (map (\<lambda>x. f x (hd ys)) xs)
      else Inl ValueError)"

definition np_scale :: "real \<Rightarrow> real list \<Rightarrow> real list" where
  "np_scale c xs = map (\<lambda>x. c * x) xs"

text \<open>
  The right-hand side of both weight assignments:
  \<^verbatim>\<open>(1 - b)*w + b*np.minimum(input, w)\<close>.
\<close>

definition fuzzy_update :: "real \<Rightarrow> real list \<Rightarrow> real list \<Rightarrow> error + real list" where
  "fuzzy_update b input w =
     (case np_broadcast min input w of
        Inl e \<Rightarrow> Inl e
      | Inr m \<Rightarrow> np_broadcast (+) (np_scale (1 - b) w) (np_scale b m))"

section \<open>The networkx graph\<close>

definition empty_graph :: graph where
  "empty_graph = \<lparr>gnodes = [], gedges = []\<rparr>"

definition add_node :: "string \<Rightarrow> graph \<Rightarrow> graph" where
  "add_node t g = (if t \<in> set (gnodes g) then g else g\<lparr>gnodes := gnodes g @ [t]\<rparr>)"

definition adjacent :: "graph \<Rightarrow> string \<Rightarrow> string \<Rightarrow> bool" where
  "adjacent g u v = ((u, v) \<in> set (gedges g) \<or> (v, u) \<in> set (gedges g))"

text \<open>\<^verbatim>\<open>add_edge\<close> adds missing endpoints and is idempotent.\<close>

definition add_edge :: "string \<Rightarrow> string \<Rightarrow> graph \<Rightarrow> graph" where
  "add_edge u v g =
     (let g' = add_node v (add_node u g)
      in if adjacent g' u v then g' else g'\<lparr>gedges := gedges g' @ [(u, v)]\<rparr>)"

text \<open>
  \<^verbatim>\<open>remove_nodes_from\<close> removes the listed nodes with their incident edges and ignores
  tags that are not nodes.
\<close>

definition remove_nodes_from :: "string list \<Rightarrow> graph \<Rightarrow> graph" where
  "remove_nodes_from ts g =
     g\<lparr>gnodes := filter (\<lambda>n. n \<notin> set ts) (gnodes g),
       gedges := filter (\<lambda>(u, v). u \<notin> set ts \<and> v \<notin> set ts) (gedges g)\<rparr>"

text \<open>
  \<^verbatim>\<open>list(G.edges)\<close>: every edge is reported once, as the pair that starts at the endpoint
  which comes first in node order. Only membership in this list is used by the module, so the
  order of the pairs is not modelled.
\<close>

definition edges_view :: "graph \<Rightarrow> (string \<times> string) list" where
  "edges_view g =
     concat (map (\<lambda>(i, u). map (\<lambda>v. (u, v)) (filter (adjacent g u) (drop i (gnodes g))))
                 (enumerate 0 (gnodes g)))"

text \<open>The undirected edges of a graph, as a set of unordered pairs.\<close>

definition edge_set :: "graph \<Rightarrow> string set set" where
  "edge_set g = (\<lambda>(u, v). {u, v}) ` set (gedges g)"

section \<open>Tags\<close>

text \<open>The f-string \<^verbatim>\<open>f"p{self.cycle}"\<close>: the letter p and the decimal digits of the integer.\<close>

definition digit :: "nat \<Rightarrow> char" where
  "digit d = char_of (48 + d)"

fun str_nat :: "nat \<Rightarrow> string" where
  "str_nat n = (if n < 10 then [digit n] else str_nat (n div 10) @ [digit (n mod 10)])"

definition str_int :: "int \<Rightarrow> string" where
  "str_int i = (if i < 0 then CHR ''-'' # str_nat (nat (- i)) else str_nat (nat i))"

definition ptag :: "int \<Rightarrow> string" where
  "ptag c = CHR ''p'' # str_int c"

section \<open>The module\<close>

text \<open>
  \<^verbatim>\<open>__init__\<close>. The constructor of \<^verbatim>\<open>BaseART\<close> is not among the sources: it
  receives \<open>vigilance\<close>, \<open>alpha\<close> and \<open>beta\<close>, and the module later reads these three
  fields and an initially empty \<open>prototypes\<close>. Whatever validation it does is the parameter
  \<open>base_check\<close>, which answers the exception it raises, if any.
\<close>

definition init ::
  "(real \<Rightarrow> real \<Rightarrow> real \<Rightarrow> error option) \<Rightarrow> real \<Rightarrow> real \<Rightarrow> real \<Rightarrow> real \<Rightarrow> int \<Rightarrow> int
     \<Rightarrow> error + art" where
  "init base_check v a b b2 ph ta =
     (case base_check v a b of
        Some e \<Rightarrow> Inl e
      | None \<Rightarrow> Inr \<lparr>vigilance = v, alpha = a, beta = b, prototypes = [],
                     beta2 = b2, phi = ph, tau = ta, cycle = 0, clusters = [],
                     network = empty_graph\<rparr>)"

definition new_prototype :: "env \<Rightarrow> real list \<Rightarrow> string \<Rightarrow> int \<Rightarrow> prototype" where
  "new_prototype env w t b =
     \<lparr>weights = w, tag = t, birth = b, lastactive = lastactive0 env b, counter = counter0 env\<rparr>"

definition add_prototype :: "env \<Rightarrow> real list \<Rightarrow> string \<Rightarrow> int \<Rightarrow> art \<Rightarrow> art" where
  "add_prototype env w t b s =
     s\<lparr>prototypes := prototypes s @ [new_prototype env w t b],
       network := add_node t (network s)\<rparr>"

text \<open>
  \<^verbatim>\<open>__prune\<close>: the loop walks the store by position; after a deletion the source
  decrements and then increments \<open>i\<close>, so the position stays where it is.
\<close>

function prune_loop ::
  "art \<Rightarrow> nat \<Rightarrow> prototype list \<Rightarrow> string list \<Rightarrow> prototype list \<times> string list" where
  "prune_loop s i ps deletedtags =
     (if i < length ps then
        (if cycle s - lastactive (ps ! i) > phi s
         then prune_loop s i (take i ps @ drop (Suc i) ps) (deletedtags @ [tag (ps ! i)])
         else prune_loop s (i + 1) ps deletedtags)
      else (ps, deletedtags))"
  by pat_completeness auto
termination
  by (relation "measure (\<lambda>(s, i, ps, d). length ps - i)") auto

definition prune :: "art \<Rightarrow> art" where
  "prune s =
     (case prune_loop s 0 (prototypes s) [] of
        (ps, deletedtags) \<Rightarrow>
          s\<lparr>prototypes := ps, network := remove_nodes_from deletedtags (network s)\<rparr>)"

text \<open>\<^verbatim>\<open>T.index(max(T))\<close>: the first position of the largest score.\<close>

fun index_of :: "real \<Rightarrow> real list \<Rightarrow> nat" where
  "index_of x [] = 0"
| "index_of x (y # ys) = (if y = x then 0 else Suc (index_of x ys))"

definition index_max :: "real list \<Rightarrow> nat" where
  "index_max T = index_of (Max (set T)) T"

text \<open>
  The local variables of \<^verbatim>\<open>learn\<close> when the search ends: the instance, the score list
  \<open>T\<close>, the positions of the first and of the second winner when they resonated, and the
  exception raised, if any.
\<close>

record search =
  self :: art
  scores :: "real list"
  IFW :: "nat option"
  ISW :: "nat option"
  raised :: "error option"

lemma index_max_less:
  assumes "T \<noteq> []"
  shows "index_max T < length T"
proof -
  have "\<And>x. x \<in> set T \<Longrightarrow> index_of x T < length T"
    by (induction T) auto
  moreover have "Max (set T) \<in> set T"
    using assms by (intro Max_in) auto
  ultimately show ?thesis by (simp add: index_max_def)
qed

lemma index_max_nth:
  assumes "T \<noteq> []"
  shows "T ! index_max T = Max (set T)"
proof -
  have "\<And>x. x \<in> set T \<Longrightarrow> T ! index_of x T = x"
    by (induction T) auto
  moreover have "Max (set T) \<in> set T"
    using assms by (intro Max_in) auto
  ultimately show ?thesis by (simp add: index_max_def)
qed

lemma index_max_nonneg:
  assumes "\<not> list_all (\<lambda>v. v < 0) T"
  shows "index_max T < length T \<and> 0 \<le> T ! index_max T"
proof -
  from assms obtain v where v: "v \<in> set T" "0 \<le> v"
    by (auto simp: list_all_iff not_less)
  then have ne: "T \<noteq> []" by auto
  have "v \<le> Max (set T)" using v by (intro Max_ge) auto
  with v have "0 \<le> Max (set T)" by linarith
  with ne show ?thesis by (simp add: index_max_less index_max_nth)
qed

text \<open>The number of candidates that are still in the search.\<close>

definition live :: "real list \<Rightarrow> nat" where
  "live T = length (filter (\<lambda>v. \<not> v < 0) T)"

lemma live_exhaust:
  assumes "\<not> list_all (\<lambda>v. v < 0) T"
  shows "live (T[index_max T := - 1]) < live T"
proof -
  have gen: "\<And>i. i < length T \<Longrightarrow> 0 \<le> T ! i \<Longrightarrow> live (T[i := - 1]) < live T"
  proof (induction T)
    case Nil
    then show ?case by simp
  next
    case (Cons a T)
    show ?case
    proof (cases i)
      case 0
      with Cons.prems show ?thesis by (simp add: live_def)
    next
      case (Suc j)
      with Cons.prems have "live (T[j := - 1]) < live T"
        by (intro Cons.IH) auto
      with Suc show ?thesis by (simp add: live_def)
    qed
  qed
  from index_max_nonneg [OF assms] show ?thesis by (intro gen) auto
qed

text \<open>
  The second-winner search, lines 135 to 147. The assignment evaluates its right-hand side,
  which reads the first winner's weights and the first-winner rate \<open>beta\<close>, before it looks
  up the target \<^verbatim>\<open>self.prototypes[ISW]\<close>.
\<close>

function second_winner_loop ::
  "art \<Rightarrow> real list \<Rightarrow> real list \<Rightarrow> nat \<Rightarrow> string \<Rightarrow> real list \<Rightarrow> search" where
  "second_winner_loop s input M ifw tagFW T =
     (if list_all (\<lambda>val2. val2 < 0) T
      then \<lparr>self = s, scores = T, IFW = Some ifw, ISW = None, raised = None\<rparr>
      else
        let isw = index_max T in
        if length M \<le> isw
        then \<lparr>self = s, scores = T, IFW = Some ifw, ISW = None, raised = Some IndexError\<rparr>
        else if M ! isw \<ge> vigilance s then
          (if length (prototypes s) \<le> ifw
           then \<lparr>self = s, scores = T, IFW = Some ifw, ISW = None, raised = Some IndexError\<rparr>
           else
             case fuzzy_update (beta s) input (weights (prototypes s ! ifw)) of
               Inl e \<Rightarrow> \<lparr>self = s, scores = T, IFW = Some ifw, ISW = None, raised = Some e\<rparr>
             | Inr w \<Rightarrow>
                 if length (prototypes s) \<le> isw
                 then \<lparr>self = s, scores = T, IFW = Some ifw, ISW = None,
                       raised = Some IndexError\<rparr>
                 else
                   let s1 = s\<lparr>prototypes :=
                               (prototypes s)[isw := (prototypes s ! isw)\<lparr>weights := w\<rparr>]\<rparr>;
                       tagSW = tag (prototypes s1 ! isw);
                       s2 = (if (tagFW, tagSW) \<notin> set (edges_view (network s1)) \<or>
                                (tagSW, tagFW) \<notin> set (edges_view (network s1))
                             then s1\<lparr>network := add_edge tagFW tagSW (network s1)\<rparr>
                             else s1)
                   in \<lparr>self = s2, scores = T, IFW = Some ifw, ISW = Some isw, raised = None\<rparr>)
        else second_winner_loop s input M ifw tagFW (T[isw := - 1]))"
  by pat_completeness auto
termination
  by (relation "measure (\<lambda>(s, input, M, ifw, tagFW, T). live T)") (auto simp: live_exhaust)

text \<open>The first-winner search, lines 126 to 150.\<close>

function first_winner_loop :: "art \<Rightarrow> real list \<Rightarrow> real list \<Rightarrow> real list \<Rightarrow> search" where
  "first_winner_loop s input M T =
     (if list_all (\<lambda>val. val < 0) T
      then \<lparr>self = s, scores = T, IFW = None, ISW = None, raised = None\<rparr>
      else
        let ifw = index_max T in
        if length M \<le> ifw
        then \<lparr>self = s, scores = T, IFW = None, ISW = None, raised = Some IndexError\<rparr>
        else if M ! ifw \<ge> vigilance s then
          (if length (prototypes s) \<le> ifw
           then \<lparr>self = s, scores = T, IFW = None, ISW = None, raised = Some IndexError\<rparr>
           else
             case fuzzy_update (beta s) input (weights (prototypes s ! ifw)) of
               Inl e \<Rightarrow> \<lparr>self = s, scores = T, IFW = None, ISW = None, raised = Some e\<rparr>
             | Inr w \<Rightarrow>
                 let s1 = s\<lparr>prototypes :=
                             (prototypes s)[ifw := (prototypes s ! ifw)
                                \<lparr>weights := w, counter := counter (prototypes s ! ifw) + 1\<rparr>]\<rparr>;
                     T1 = T[ifw := - 1];
                     tagFW = tag (prototypes s1 ! ifw)
                 in second_winner_loop s1 input M ifw tagFW T1)
        else first_winner_loop s input M (T[ifw := - 1]))"
  by pat_completeness auto
termination
  by (relation "measure (\<lambda>(s, input, M, T). live T)") (auto simp: live_exhaust)

text \<open>
  \<^verbatim>\<open>learn\<close> up to the pruning step, lines 118 to 154. The scoring methods see the
  instance after the cycle counter has been incremented.
\<close>

definition resonate :: "env \<Rightarrow> art \<Rightarrow> real list \<Rightarrow> search" where
  "resonate env s0 input =
     (let s = s0\<lparr>cycle := cycle s0 + 1\<rparr> in
      if length (prototypes s) = 0
      then \<lparr>self = add_prototype env input (ptag (cycle s)) (cycle s) s,
            scores = [], IFW = None, ISW = None, raised = None\<rparr>
      else
        case choice env s input of
          Inl e \<Rightarrow> \<lparr>self = s, scores = [], IFW = None, ISW = None, raised = Some e\<rparr>
        | Inr T \<Rightarrow>
            (case match env s input of
               Inl e \<Rightarrow> \<lparr>self = s, scores = T, IFW = None, ISW = None, raised = Some e\<rparr>
             | Inr M \<Rightarrow>
                 let r = first_winner_loop s input M T in
                 if raised r \<noteq> None then r
                 else if \<not> list_ex (\<lambda>val. val > 0) (scores r)
                 then r\<lparr>self := add_prototype env input (ptag (cycle (self r)))
                                  (cycle (self r)) (self r)\<rparr>
                 else r))"

text \<open>\<^verbatim>\<open>learn\<close>: the search, then the pruning step of lines 155 to 157.\<close>

definition learn :: "env \<Rightarrow> art \<Rightarrow> real list \<Rightarrow> art \<times> error option" where
  "learn env s0 input =
     (let r = resonate env s0 input in
      case raised r of
        Some e \<Rightarrow> (self r, Some e)
      | None \<Rightarrow> (if cycle (self r) > tau (self r) then prune (self r) else self r, None))"

section \<open>Properties of the loops\<close>

declare second_winner_loop.simps [simp del] first_winner_loop.simps [simp del]
  prune_loop.simps [simp del] str_nat.simps [simp del]

definition stale :: "art \<Rightarrow> prototype \<Rightarrow> bool" where
  "stale s p = (cycle s - lastactive p > phi s)"

lemma prune_loop_filter:
  "i \<le> length ps \<Longrightarrow> prune_loop s i ps d =
     (take i ps @ filter (\<lambda>p. \<not> stale s p) (drop i ps),
      d @ map tag (filter (stale s) (drop i ps)))"
proof (induction s i ps d rule: prune_loop.induct)
  case (1 s i ps d)
  show ?case
  proof (cases "i < length ps")
    case False
    with "1.prems" show ?thesis by (subst prune_loop.simps) simp
  next
    case lt: True
    then have dr: "drop i ps = ps ! i # drop (Suc i) ps"
      by (simp add: Cons_nth_drop_Suc)
    show ?thesis
    proof (cases "stale s (ps ! i)")
      case True
      then have c: "cycle s - lastactive (ps ! i) > phi s" by (simp add: stale_def)
      have "prune_loop s i ps d =
            prune_loop s i (take i ps @ drop (Suc i) ps) (d @ [tag (ps ! i)])"
        using lt c by (subst prune_loop.simps) simp
      also have "\<dots> = (take i (take i ps @ drop (Suc i) ps) @
             filter (\<lambda>p. \<not> stale s p) (drop i (take i ps @ drop (Suc i) ps)),
           (d @ [tag (ps ! i)]) @ map tag (filter (stale s) (drop i (take i ps @ drop (Suc i) ps))))"
        using lt c by (intro "1.IH"(1)) auto
      finally show ?thesis using lt True by (simp add: dr min_absorb2)
    next
      case False
      then have c: "\<not> cycle s - lastactive (ps ! i) > phi s" by (simp add: stale_def)
      have "prune_loop s i ps d = prune_loop s (i + 1) ps d"
        using lt c by (subst prune_loop.simps) simp
      also have "\<dots> = (take (i + 1) ps @ filter (\<lambda>p. \<not> stale s p) (drop (i + 1) ps),
           d @ map tag (filter (stale s) (drop (i + 1) ps)))"
        using lt c by (intro "1.IH"(2)) auto
      finally show ?thesis using lt False by (simp add: dr take_Suc_conv_app_nth)
    qed
  qed
qed

lemma prune_eq:
  "prune s = s\<lparr>prototypes := filter (\<lambda>p. \<not> stale s p) (prototypes s),
              network := remove_nodes_from (map tag (filter (stale s) (prototypes s))) (network s)\<rparr>"
  by (simp add: prune_def prune_loop_filter)

lemma second_winner_loop_cases [case_names exhausted error second]:
  assumes ex: "\<And>T'. list_all (\<lambda>v. v < 0) T' \<Longrightarrow>
             Q \<lparr>self = s, scores = T', IFW = Some ifw, ISW = None, raised = None\<rparr>"
    and er: "\<And>T' e. Q \<lparr>self = s, scores = T', IFW = Some ifw, ISW = None, raised = Some e\<rparr>"
    and sw: "\<And>T' isw w g'. isw < length (prototypes s) \<Longrightarrow> ifw < length (prototypes s) \<Longrightarrow>
             isw < length T' \<Longrightarrow> 0 \<le> T' ! isw \<Longrightarrow> isw < length M \<Longrightarrow> vigilance s \<le> M ! isw \<Longrightarrow>
             fuzzy_update (beta s) input (weights (prototypes s ! ifw)) = Inr w \<Longrightarrow>
             g' = network s \<or> g' = add_edge tagFW (tag (prototypes s ! isw)) (network s) \<Longrightarrow>
             Q \<lparr>self = s\<lparr>prototypes := (prototypes s)[isw := (prototypes s ! isw)\<lparr>weights := w\<rparr>],
                         network := g'\<rparr>,
                scores = T', IFW = Some ifw, ISW = Some isw, raised = None\<rparr>"
  shows "Q (second_winner_loop s input M ifw tagFW T)"
proof (induction "live T" arbitrary: T rule: less_induct)
  case less
  have sw0: "Q \<lparr>self = s\<lparr>prototypes := (prototypes s)[isw := (prototypes s ! isw)\<lparr>weights := w\<rparr>]\<rparr>,
                scores = T', IFW = Some ifw, ISW = Some isw, raised = None\<rparr>"
    if "isw < length (prototypes s)" "ifw < length (prototypes s)" "isw < length T'"
       "0 \<le> T' ! isw" "isw < length M" "vigilance s \<le> M ! isw"
       "fuzzy_update (beta s) input (weights (prototypes s ! ifw)) = Inr w" for T' isw w
    using sw [where g' = "network s", OF that] by simp
  show ?case
  proof (cases "list_all (\<lambda>v. v < 0) T")
    case True
    then show ?thesis by (subst second_winner_loop.simps) (simp add: ex)
  next
    case False
    note lv = live_exhaust [OF False] index_max_nonneg [OF False]
    show ?thesis
      apply (subst second_winner_loop.simps)
      using False lv
      apply (auto simp: Let_def split: sum.splits intro: er less sw sw0)
      done
  qed
qed

lemma first_winner_loop_cases [case_names exhausted error first]:
  assumes ex: "\<And>T'. list_all (\<lambda>v. v < 0) T' \<Longrightarrow>
             Q \<lparr>self = s, scores = T', IFW = None, ISW = None, raised = None\<rparr>"
    and er: "\<And>T' e. Q \<lparr>self = s, scores = T', IFW = None, ISW = None, raised = Some e\<rparr>"
    and fw: "\<And>T' ifw w. ifw < length (prototypes s) \<Longrightarrow> ifw < length T' \<Longrightarrow> 0 \<le> T' ! ifw \<Longrightarrow>
             ifw < length M \<Longrightarrow> vigilance s \<le> M ! ifw \<Longrightarrow>
             fuzzy_update (beta s) input (weights (prototypes s ! ifw)) = Inr w \<Longrightarrow>
             Q (second_winner_loop
                  (s\<lparr>prototypes := (prototypes s)[ifw := (prototypes s ! ifw)
                        \<lparr>weights := w, counter := counter (prototypes s ! ifw) + 1\<rparr>]\<rparr>)
                  input M ifw (tag (prototypes s ! ifw)) (T'[ifw := - 1]))"
  shows "Q (first_winner_loop s input M T)"
proof (induction "live T" arbitrary: T rule: less_induct)
  case less
  show ?case
  proof (cases "list_all (\<lambda>v. v < 0) T")
    case True
    then show ?thesis by (subst first_winner_loop.simps) (simp add: ex)
  next
    case False
    note lv = live_exhaust [OF False] index_max_nonneg [OF False]
    show ?thesis
      apply (subst first_winner_loop.simps)
      using False lv
      apply (auto simp: Let_def split: sum.splits intro: er less fw)
      done
  qed
qed

subsection \<open>Graph operations\<close>

lemma gedges_add_node [simp]: "gedges (add_node t g) = gedges g"
  by (simp add: add_node_def)

lemma set_gnodes_add_node [simp]: "set (gnodes (add_node t g)) = insert t (set (gnodes g))"
  by (auto simp: add_node_def)

lemma add_node_present: "t \<in> set (gnodes g) \<Longrightarrow> add_node t g = g"
  by (simp add: add_node_def)

lemma edge_set_add_node [simp]: "edge_set (add_node t g) = edge_set g"
  by (simp add: edge_set_def)

lemma gnodes_add_edge:
  "u \<in> set (gnodes g) \<Longrightarrow> v \<in> set (gnodes g) \<Longrightarrow> gnodes (add_edge u v g) = gnodes g"
  by (simp add: add_edge_def add_node_present Let_def)

lemma set_gnodes_add_edge: "set (gnodes (add_edge u v g)) = {u, v} \<union> set (gnodes g)"
  by (auto simp: add_edge_def Let_def)

lemma edge_set_add_edge: "edge_set (add_edge u v g) = insert {u, v} (edge_set g)"
  by (auto simp: add_edge_def Let_def edge_set_def adjacent_def insert_commute image_iff
      intro: rev_bexI)

lemma edge_set_remove_nodes_from: "edge_set (remove_nodes_from ts g) \<subseteq> edge_set g"
  by (auto simp: remove_nodes_from_def edge_set_def)

lemma gnodes_remove_nodes_from [simp]:
  "gnodes (remove_nodes_from ts g) = filter (\<lambda>n. n \<notin> set ts) (gnodes g)"
  by (simp add: remove_nodes_from_def)

subsection \<open>What the search leaves alone\<close>

definition ident :: "prototype \<Rightarrow> string \<times> int \<times> int" where
  "ident p = (tag p, birth p, lastactive p)"

lemma ident_update [simp]:
  "ident (p\<lparr>weights := w\<rparr>) = ident p"
  "ident (p\<lparr>counter := c\<rparr>) = ident p"
  by (simp_all add: ident_def)

lemma map_ident_update:
  "ident q = ident (ps ! i) \<Longrightarrow> map ident (ps[i := q]) = map ident ps"
  by (induction ps arbitrary: i) (auto split: nat.splits)

definition winners_edge :: "prototype list \<Rightarrow> search \<Rightarrow> string set set" where
  "winners_edge ps r =
     (case (IFW r, ISW r) of
        (Some i, Some j) \<Rightarrow> {{tag (ps ! i), tag (ps ! j)}}
      | _ \<Rightarrow> {})"

lemma second_loop_fields:
  "self (second_winner_loop s input M ifw tagFW T) =
     s\<lparr>prototypes := prototypes (self (second_winner_loop s input M ifw tagFW T)),
       network := network (self (second_winner_loop s input M ifw tagFW T))\<rparr>"
  by (rule second_winner_loop_cases) simp_all

lemma second_loop_ident:
  "map ident (prototypes (self (second_winner_loop s input M ifw tagFW T))) =
     map ident (prototypes s)"
  by (rule second_winner_loop_cases) (simp_all add: map_ident_update)

lemma second_loop_gnodes:
  assumes "tag ` set (prototypes s) \<subseteq> set (gnodes (network s))"
    and "tagFW \<in> set (gnodes (network s))"
  shows "gnodes (network (self (second_winner_loop s input M ifw tagFW T))) =
         gnodes (network s)"
  using assms by (rule_tac second_winner_loop_cases) (auto intro!: gnodes_add_edge)

lemma second_loop_edges:
  "edge_set (network (self (second_winner_loop s input M ifw tagFW T)))
     \<subseteq> edge_set (network s) \<union>
       (case ISW (second_winner_loop s input M ifw tagFW T) of
          Some j \<Rightarrow> {{tagFW, tag (prototypes s ! j)}} | None \<Rightarrow> {})"
  by (rule second_winner_loop_cases) (auto simp: edge_set_add_edge)

lemma second_loop_IFW:
  "IFW (second_winner_loop s input M ifw tagFW T) = Some ifw"
  by (rule second_winner_loop_cases) simp_all

lemma tag_nth_update:
  "i < length ps \<Longrightarrow> tag q = tag (ps ! i) \<Longrightarrow> tag (ps[i := q] ! j) = tag (ps ! j)"
  by (cases "i = j") simp_all

lemma map_tag_update:
  "tag q = tag (ps ! i) \<Longrightarrow> map tag (ps[i := q]) = map tag ps"
  by (induction ps arbitrary: i) (auto split: nat.splits)

lemma tags_update:
  assumes "tag q = tag (ps ! i)"
  shows "tag ` set (ps[i := q]) \<subseteq> tag ` set ps"
proof -
  have "set (map tag (ps[i := q])) = set (map tag ps)"
    using assms by (simp add: map_tag_update)
  then show ?thesis by simp
qed

lemma first_loop_fields:
  "self (first_winner_loop s input M T) =
     s\<lparr>prototypes := prototypes (self (first_winner_loop s input M T)),
       network := network (self (first_winner_loop s input M T))\<rparr>"
proof (rule first_winner_loop_cases)
  fix T' ifw w
  show "self (second_winner_loop
                  (s\<lparr>prototypes := (prototypes s)[ifw := (prototypes s ! ifw)
                        \<lparr>weights := w, counter := counter (prototypes s ! ifw) + 1\<rparr>]\<rparr>)
                  input M ifw (tag (prototypes s ! ifw)) (T'[ifw := - 1])) =
     s\<lparr>prototypes := prototypes (self (second_winner_loop
                  (s\<lparr>prototypes := (prototypes s)[ifw := (prototypes s ! ifw)
                        \<lparr>weights := w, counter := counter (prototypes s ! ifw) + 1\<rparr>]\<rparr>)
                  input M ifw (tag (prototypes s ! ifw)) (T'[ifw := - 1]))),
       network := network (self (second_winner_loop
                  (s\<lparr>prototypes := (prototypes s)[ifw := (prototypes s ! ifw)
                        \<lparr>weights := w, counter := counter (prototypes s ! ifw) + 1\<rparr>]\<rparr>)
                  input M ifw (tag (prototypes s ! ifw)) (T'[ifw := - 1])))\<rparr>"
    by (subst second_loop_fields) simp
qed simp_all

lemma first_loop_ident:
  "map ident (prototypes (self (first_winner_loop s input M T))) = map ident (prototypes s)"
  by (rule first_winner_loop_cases) (simp_all add: second_loop_ident map_ident_update)

lemma first_loop_gnodes:
  assumes "tag ` set (prototypes s) \<subseteq> set (gnodes (network s))"
  shows "gnodes (network (self (first_winner_loop s input M T))) = gnodes (network s)"
proof (rule first_winner_loop_cases)
  fix T' ifw w
  let ?q = "(prototypes s ! ifw)\<lparr>weights := w, counter := counter (prototypes s ! ifw) + 1\<rparr>"
  let ?s1 = "s\<lparr>prototypes := (prototypes s)[ifw := ?q]\<rparr>"
  assume i: "ifw < length (prototypes s)"
  have "tag ` set (prototypes ?s1) \<subseteq> tag ` set (prototypes s)"
    using tags_update [of ?q "prototypes s" ifw] by simp
  with assms have "tag ` set (prototypes ?s1) \<subseteq> set (gnodes (network ?s1))" by simp
  moreover have "tag (prototypes s ! ifw) \<in> set (gnodes (network ?s1))"
    using assms i by auto
  ultimately show "gnodes (network (self (second_winner_loop ?s1 input M ifw
        (tag (prototypes s ! ifw)) (T'[ifw := - 1])))) = gnodes (network s)"
    by (simp add: second_loop_gnodes)
qed simp_all

lemma first_loop_edges:
  "edge_set (network (self (first_winner_loop s input M T)))
     \<subseteq> edge_set (network s) \<union> winners_edge (prototypes s) (first_winner_loop s input M T)"
proof (rule first_winner_loop_cases)
  fix T' ifw w
  let ?q = "(prototypes s ! ifw)\<lparr>weights := w, counter := counter (prototypes s ! ifw) + 1\<rparr>"
  let ?s1 = "s\<lparr>prototypes := (prototypes s)[ifw := ?q]\<rparr>"
  let ?r = "second_winner_loop ?s1 input M ifw (tag (prototypes s ! ifw)) (T'[ifw := - 1])"
  assume i: "ifw < length (prototypes s)"
  have t: "tag (prototypes ?s1 ! j) = tag (prototypes s ! j)" for j
    using i by (simp add: tag_nth_update)
  have "edge_set (network (self ?r)) \<subseteq> edge_set (network ?s1) \<union>
       (case ISW ?r of Some j \<Rightarrow> {{tag (prototypes s ! ifw), tag (prototypes ?s1 ! j)}} | None \<Rightarrow> {})"
    by (rule second_loop_edges)
  then show "edge_set (network (self ?r)) \<subseteq> edge_set (network s) \<union> winners_edge (prototypes s) ?r"
    unfolding t by (auto simp: winners_edge_def second_loop_IFW split: option.splits)
qed (simp_all add: winners_edge_def)

subsection \<open>One call of learn\<close>

lemma first_loop_length:
  "length (prototypes (self (first_winner_loop s input M T))) = length (prototypes s)"
  using first_loop_ident [of s input M T] by (metis length_map)

lemma first_loop_cycle:
  "cycle (self (first_winner_loop s input M T)) = cycle s"
  by (subst first_loop_fields) simp

lemma resonate_cases [case_names empty fail search create]:
  assumes "prototypes s = [] \<Longrightarrow>
      Q \<lparr>self = add_prototype env x (ptag (cycle s + 1)) (cycle s + 1) (s\<lparr>cycle := cycle s + 1\<rparr>),
         scores = [], IFW = None, ISW = None, raised = None\<rparr>"
    and "\<And>T e. prototypes s \<noteq> [] \<Longrightarrow>
      Q \<lparr>self = s\<lparr>cycle := cycle s + 1\<rparr>, scores = T, IFW = None, ISW = None, raised = Some e\<rparr>"
    and "\<And>M T. prototypes s \<noteq> [] \<Longrightarrow>
      Q (first_winner_loop (s\<lparr>cycle := cycle s + 1\<rparr>) x M T)"
    and "\<And>M T. prototypes s \<noteq> [] \<Longrightarrow>
      raised (first_winner_loop (s\<lparr>cycle := cycle s + 1\<rparr>) x M T) = None \<Longrightarrow>
      Q ((first_winner_loop (s\<lparr>cycle := cycle s + 1\<rparr>) x M T)
           \<lparr>self := add_prototype env x (ptag (cycle s + 1)) (cycle s + 1)
                      (self (first_winner_loop (s\<lparr>cycle := cycle s + 1\<rparr>) x M T))\<rparr>)"
  shows "Q (resonate env s x)"
proof (cases "prototypes s = []")
  case True
  with assms(1) show ?thesis by (simp add: resonate_def)
next
  case ne: False
  show ?thesis
  proof (cases "choice env (s\<lparr>cycle := cycle s + 1\<rparr>) x")
    case (Inl e)
    with ne assms(2) show ?thesis by (simp add: resonate_def)
  next
    case T: (Inr T)
    show ?thesis
    proof (cases "match env (s\<lparr>cycle := cycle s + 1\<rparr>) x")
      case (Inl e)
      with ne T assms(2) show ?thesis by (simp add: resonate_def)
    next
      case (Inr M)
      let ?L = "first_winner_loop (s\<lparr>cycle := cycle s + 1\<rparr>) x M T"
      have eq: "resonate env s x =
          (if raised ?L \<noteq> None then ?L
           else if \<not> list_ex (\<lambda>val. val > 0) (scores ?L)
           then ?L\<lparr>self := add_prototype env x (ptag (cycle s + 1)) (cycle s + 1) (self ?L)\<rparr>
           else ?L)"
        using ne T Inr by (simp add: resonate_def Let_def first_loop_cycle)
      show ?thesis
        unfolding eq using assms(3) [OF ne, of M T] assms(4) [OF ne, of M T] by auto
    qed
  qed
qed

lemma resonate_fields:
  "self (resonate env s x) =
     s\<lparr>cycle := cycle s + 1, prototypes := prototypes (self (resonate env s x)),
       network := network (self (resonate env s x))\<rparr>"
proof (induction rule: resonate_cases [of s _ env x])
  case (search M T)
  show ?case by (subst first_loop_fields) simp
next
  case (create M T)
  show ?case by (subst first_loop_fields) (simp add: add_prototype_def)
qed (simp_all add: add_prototype_def)

lemma resonate_kept:
  "map ident (take (length (prototypes s)) (prototypes (self (resonate env s x)))) =
     map ident (prototypes s)"
  by (rule resonate_cases)
     (simp_all add: add_prototype_def first_loop_length first_loop_ident)

lemma resonate_created:
  "drop (length (prototypes s)) (prototypes (self (resonate env s x))) = [] \<or>
   drop (length (prototypes s)) (prototypes (self (resonate env s x))) =
     [new_prototype env x (ptag (cycle s + 1)) (cycle s + 1)]"
  by (rule resonate_cases) (simp_all add: add_prototype_def first_loop_length)

lemma resonate_gnodes:
  assumes "tag ` set (prototypes s) \<subseteq> set (gnodes (network s))"
  shows "set (gnodes (network (self (resonate env s x)))) =
         set (gnodes (network s)) \<union>
         tag ` set (drop (length (prototypes s)) (prototypes (self (resonate env s x))))"
proof (induction rule: resonate_cases [of s _ env x])
  case (search M T)
  show ?case using assms by (simp add: first_loop_gnodes first_loop_length)
next
  case (create M T)
  show ?case using assms
    by (simp add: first_loop_gnodes first_loop_length add_prototype_def new_prototype_def)
qed (simp_all add: add_prototype_def new_prototype_def)

lemma resonate_edges:
  "edge_set (network (self (resonate env s x)))
     \<subseteq> edge_set (network s) \<union> winners_edge (prototypes s) (resonate env s x)"
proof (induction rule: resonate_cases [of s _ env x])
  case (search M T)
  show ?case using first_loop_edges [of "s\<lparr>cycle := cycle s + 1\<rparr>" x M T] by simp
next
  case (create M T)
  have "winners_edge ps (r\<lparr>self := s'\<rparr>) = winners_edge ps r" for ps r s'
    by (simp add: winners_edge_def)
  then show ?case using first_loop_edges [of "s\<lparr>cycle := cycle s + 1\<rparr>" x M T]
    by (simp add: add_prototype_def)
qed (simp_all add: add_prototype_def edge_set_def empty_graph_def)

subsection \<open>Tags are injective in the cycle\<close>

lemma digit_inj: "a < 10 \<Longrightarrow> b < 10 \<Longrightarrow> digit a = digit b \<Longrightarrow> a = b"
  by (simp add: digit_def char_of_eq_iff take_bit_eq_mod)

lemma str_nat_nonempty: "str_nat n \<noteq> []"
  by (subst str_nat.simps) simp

lemma str_nat_inj: "str_nat m = str_nat n \<Longrightarrow> m = n"
proof (induction m arbitrary: n rule: less_induct)
  case (less m)
  show ?case
  proof (cases "m < 10")
    case m: True
    show ?thesis
    proof (cases "n < 10")
      case True
      with m less.prems show ?thesis
        by (subst (asm) (1 2) str_nat.simps) (simp add: digit_inj)
    next
      case False
      with m less.prems str_nat_nonempty [of "n div 10"] show ?thesis
        by (subst (asm) (1 2) str_nat.simps) simp
    qed
  next
    case m: False
    show ?thesis
    proof (cases "n < 10")
      case True
      with m less.prems str_nat_nonempty [of "m div 10"] show ?thesis
        by (subst (asm) (1 2) str_nat.simps) simp
    next
      case False
      with m less.prems
      have "str_nat (m div 10) = str_nat (n div 10)" "digit (m mod 10) = digit (n mod 10)"
        by (subst (asm) (1 2) str_nat.simps, simp)+
      moreover have "m div 10 < m" using m by simp
      ultimately have "m div 10 = n div 10" "m mod 10 = n mod 10"
        using less.IH by (auto intro: digit_inj)
      then show ?thesis by (metis div_mult_mod_eq)
    qed
  qed
qed

lemma ptag_inj: "0 \<le> a \<Longrightarrow> 0 \<le> b \<Longrightarrow> ptag a = ptag b \<Longrightarrow> a = b"
  by (auto simp: ptag_def str_int_def dest: str_nat_inj)

section \<open>The invariant of the reachable states\<close>

definition wf_ident :: "env \<Rightarrow> int \<Rightarrow> string \<times> int \<times> int \<Rightarrow> bool" where
  "wf_ident env c i = (case i of (t, b, l) \<Rightarrow> t = ptag b \<and> 1 \<le> b \<and> b \<le> c \<and> l = lastactive0 env b)"

definition inv :: "env \<Rightarrow> art \<Rightarrow> bool" where
  "inv env s \<longleftrightarrow>
     0 \<le> cycle s \<and>
     distinct (map tag (prototypes s)) \<and>
     set (gnodes (network s)) = tag ` set (prototypes s) \<and>
     list_all (wf_ident env (cycle s)) (map ident (prototypes s))"

lemma map_tag_ident: "map tag ps = map fst (map ident ps)"
  by (simp add: ident_def)

lemma wf_ident_fresh:
  assumes "list_all (wf_ident env c) (map ident ps)" "0 \<le> c"
  shows "ptag (c + 1) \<notin> tag ` set ps"
proof
  assume "ptag (c + 1) \<in> tag ` set ps"
  then obtain p where p: "p \<in> set ps" "tag p = ptag (c + 1)" by auto
  with assms(1) have "tag p = ptag (birth p)" "1 \<le> birth p" "birth p \<le> c"
    by (auto simp: list_all_iff wf_ident_def ident_def)
  with p assms(2) have "c + 1 = birth p" by (intro ptag_inj) auto
  with \<open>birth p \<le> c\<close> show False by simp
qed

lemma inv_resonate:
  assumes "inv env s"
  shows "inv env (self (resonate env s x))"
proof -
  let ?m = "self (resonate env s x)"
  let ?n = "length (prototypes s)"
  let ?new = "new_prototype env x (ptag (cycle s + 1)) (cycle s + 1)"
  from assms have c: "0 \<le> cycle s" and d: "distinct (map tag (prototypes s))"
    and g: "set (gnodes (network s)) = tag ` set (prototypes s)"
    and w: "list_all (wf_ident env (cycle s)) (map ident (prototypes s))"
    by (simp_all add: inv_def)
  have cy: "cycle ?m = cycle s + 1" by (subst resonate_fields) simp
  have split: "prototypes ?m = take ?n (prototypes ?m) @ drop ?n (prototypes ?m)" by simp
  have k: "map ident (take ?n (prototypes ?m)) = map ident (prototypes s)"
    by (rule resonate_kept)
  then have kt: "map tag (take ?n (prototypes ?m)) = map tag (prototypes s)"
    by (simp only: map_tag_ident)
  then have ks: "tag ` set (take ?n (prototypes ?m)) = tag ` set (prototypes s)"
    by (metis set_map)
  have cr: "drop ?n (prototypes ?m) = [] \<or> drop ?n (prototypes ?m) = [?new]"
    by (rule resonate_created)
  have fresh: "ptag (cycle s + 1) \<notin> tag ` set (prototypes s)"
    using w c by (rule wf_ident_fresh)
  have w1: "list_all (wf_ident env (cycle s + 1)) (map ident (prototypes s))"
    using w by (auto simp: list_all_iff wf_ident_def)
  have wn: "wf_ident env (cycle s + 1) (ident ?new)"
    using c by (simp add: wf_ident_def ident_def new_prototype_def)
  from fresh have fresh': "\<forall>p\<in>set (prototypes s). tag p \<noteq> ptag (cycle s + 1)" by force
  have "distinct (map tag (take ?n (prototypes ?m)) @ map tag (drop ?n (prototypes ?m)))"
    using cr d fresh' unfolding kt by (auto simp: new_prototype_def)
  then have 1: "distinct (map tag (prototypes ?m))"
    by (simp only: map_append [symmetric] append_take_drop_id)
  have "set (gnodes (network ?m)) = set (gnodes (network s)) \<union> tag ` set (drop ?n (prototypes ?m))"
    using g by (intro resonate_gnodes) simp
  also have "\<dots> = tag ` set (take ?n (prototypes ?m)) \<union> tag ` set (drop ?n (prototypes ?m))"
    using g ks by simp
  also have "\<dots> = tag ` set (take ?n (prototypes ?m) @ drop ?n (prototypes ?m))"
    by (simp only: set_append image_Un)
  finally have 2: "set (gnodes (network ?m)) = tag ` set (prototypes ?m)" by simp
  have "list_all (wf_ident env (cycle s + 1))
          (map ident (take ?n (prototypes ?m)) @ map ident (drop ?n (prototypes ?m)))"
    using cr w1 wn unfolding k by auto
  then have 3: "list_all (wf_ident env (cycle s + 1)) (map ident (prototypes ?m))"
    by (simp only: map_append [symmetric] append_take_drop_id)
  from c cy 1 2 3 show ?thesis by (simp add: inv_def)
qed

lemma inv_prune:
  assumes "inv env s"
  shows "inv env (prune s)"
proof -
  from assms have d: "distinct (map tag (prototypes s))"
    and g: "set (gnodes (network s)) = tag ` set (prototypes s)"
    by (simp_all add: inv_def)
  from d have inj: "inj_on tag (set (prototypes s))" by (simp add: distinct_map)
  have "tag ` {p \<in> set (prototypes s). \<not> stale s p} =
        tag ` set (prototypes s) - tag ` {p \<in> set (prototypes s). stale s p}"
    using inj by (auto simp: inj_on_def)
  then have "set (gnodes (network (prune s))) = tag ` set (prototypes (prune s))"
    using g by (auto simp: prune_eq)
  moreover have "distinct (map tag (prototypes (prune s)))"
    using d by (simp add: prune_eq distinct_map_filter)
  moreover have "list_all (wf_ident env (cycle (prune s))) (map ident (prototypes (prune s)))"
    using assms by (auto simp: inv_def prune_eq list_all_iff)
  moreover have "0 \<le> cycle (prune s)" using assms by (simp add: inv_def prune_eq)
  ultimately show ?thesis by (simp add: inv_def)
qed

lemma learn_fst:
  "fst (learn env s x) =
     (if raised (resonate env s x) = None \<and> cycle s + 1 > tau s
      then prune (self (resonate env s x)) else self (resonate env s x))"
proof -
  have "cycle (self (resonate env s x)) = cycle s + 1" "tau (self (resonate env s x)) = tau s"
    by (subst resonate_fields, simp)+
  then show ?thesis by (simp add: learn_def Let_def split: option.splits)
qed

lemma learn_snd: "snd (learn env s x) = raised (resonate env s x)"
  by (simp add: learn_def Let_def split: option.splits)

lemma inv_learn: "inv env s \<Longrightarrow> inv env (fst (learn env s x))"
  by (simp add: learn_fst inv_resonate inv_prune)

inductive reachable :: "env \<Rightarrow> art \<Rightarrow> bool" for env where
  constructed: "init base_check v a b b2 ph ta = Inr s \<Longrightarrow> reachable env s"
| learned: "reachable env s \<Longrightarrow> reachable env (fst (learn env s x))"

lemma inv_init: "init base_check v a b b2 ph ta = Inr s \<Longrightarrow> inv env s"
  by (auto simp: init_def inv_def empty_graph_def split: option.splits)

lemma reachable_inv: "reachable env s \<Longrightarrow> inv env s"
  by (induction rule: reachable.induct) (auto intro: inv_init inv_learn)

lemma ptag_1: "ptag 1 = ''p1''"
  by (simp add: ptag_def str_int_def str_nat.simps digit_def char_of_def bit_Suc_0_iff)

lemma ptag_2: "ptag 2 = ''p2''"
  by (simp add: ptag_def str_int_def str_nat.simps digit_def char_of_def bit_Suc_0_iff)

section \<open>Consequences for one call\<close>

lemma learn_config:
  "cycle (fst (learn env s x)) = cycle s + 1"
  "tau (fst (learn env s x)) = tau s"
  "phi (fst (learn env s x)) = phi s"
proof -
  have "cycle (self (resonate env s x)) = cycle s + 1" "tau (self (resonate env s x)) = tau s"
    "phi (self (resonate env s x)) = phi s"
    by (subst resonate_fields, simp)+
  then show "cycle (fst (learn env s x)) = cycle s + 1"
  "tau (fst (learn env s x)) = tau s"
  "phi (fst (learn env s x)) = phi s"
    by (simp_all add: learn_fst prune_eq)
qed

lemma resonate_ident:
  "map ident (prototypes (self (resonate env s x))) = map ident (prototypes s) \<or>
   map ident (prototypes (self (resonate env s x))) =
     map ident (prototypes s) @ [ident (new_prototype env x (ptag (cycle s + 1)) (cycle s + 1))]"
proof -
  let ?ps = "prototypes (self (resonate env s x))"
  let ?n = "length (prototypes s)"
  have "map ident ?ps = map ident (take ?n ?ps) @ map ident (drop ?n ?ps)"
    by (simp only: map_append [symmetric] append_take_drop_id)
  then have "map ident ?ps = map ident (prototypes s) @ map ident (drop ?n ?ps)"
    by (simp only: resonate_kept)
  with resonate_created [of s env x] show ?thesis by auto
qed

lemma reachable_learn_result:
  assumes "reachable env s" "learn env s x = (s', r)"
  shows "reachable env s'"
  using reachable.learned [OF assms(1), of x] assms(2) by simp

lemma card_winners_edge: "card (winners_edge ps r) \<le> 1"
  by (simp add: winners_edge_def split: option.splits)

lemma finite_winners_edge: "finite (winners_edge ps r)"
  by (simp add: winners_edge_def split: option.splits)

lemma learn_edges:
  "edge_set (network (fst (learn env s x)))
     \<subseteq> edge_set (network s) \<union> winners_edge (prototypes s) (resonate env s x)"
proof -
  have "edge_set (network (fst (learn env s x))) \<subseteq> edge_set (network (self (resonate env s x)))"
    using edge_set_remove_nodes_from by (simp add: learn_fst prune_eq)
  with resonate_edges [of env s x] show ?thesis by blast
qed

lemma map2_fuzzy:
  "length xs = length ys \<Longrightarrow>
   map2 (+) (np_scale c ys) (np_scale d (map2 min xs ys)) =
   map2 (\<lambda>a x. c * a + d * min x a) ys xs"
  by (induction xs ys rule: list_induct2) (simp_all add: np_scale_def)

lemma fuzzy_update_same_length:
  assumes "length input = length w"
  shows "fuzzy_update b input w = Inr (map2 (\<lambda>a x. (1 - b) * a + b * min x a) w input)"
  using assms by (simp add: fuzzy_update_def np_broadcast_def map2_fuzzy) (simp add: np_scale_def)

lemma single_resonance:
  assumes "prototypes s = [p]" and "0 \<le> t" and "vigilance s \<le> m"
    and "length B = length (weights p)"
  shows "first_winner_loop s B [m] [t] =
     \<lparr>self = s\<lparr>prototypes :=
          [p\<lparr>weights := map2 (\<lambda>a x. (1 - beta s) * a + beta s * min x a) (weights p) B,
             counter := counter p + 1\<rparr>]\<rparr>,
      scores = [- 1], IFW = Some 0, ISW = None, raised = None\<rparr>"
  using assms
  by (simp add: first_winner_loop.simps second_winner_loop.simps index_max_def Let_def
      fuzzy_update_same_length)

lemma first_learn:
  assumes "init base_check v a b b2 ph ta = Inr s0"
    and "prototypes (fst (learn env s0 A)) \<noteq> []"
  shows "fst (learn env s0 A) =
           s0\<lparr>cycle := 1, prototypes := [new_prototype env A ''p1'' 1],
              network := \<lparr>gnodes = [''p1''], gedges = []\<rparr>\<rparr>"
proof -
  from assms(1) have s0: "s0 = \<lparr>vigilance = v, alpha = a, beta = b, prototypes = [],
                     beta2 = b2, phi = ph, tau = ta, cycle = 0, clusters = [],
                     network = empty_graph\<rparr>"
    by (auto simp: init_def split: option.splits)
  have m: "resonate env s0 A =
       \<lparr>self = s0\<lparr>cycle := 1, prototypes := [new_prototype env A ''p1'' 1],
              network := \<lparr>gnodes = [''p1''], gedges = []\<rparr>\<rparr>,
            scores = [], IFW = None, ISW = None, raised = None\<rparr>"
    by (simp add: s0 resonate_def add_prototype_def add_node_def empty_graph_def ptag_1)
  show ?thesis
    using assms(2) unfolding learn_def m
    by (simp add: Let_def prune_eq s0 remove_nodes_from_def split: if_splits)
qed

section \<open>The history of issued tags\<close>

text \<open>
  The history of a module instance: \<open>issued env s H\<close> holds when \<open>s\<close> is reachable and
  \<open>H\<close> is the set of all tags that prototypes have been given so far, including those of
  prototypes created and pruned in the same call.
\<close>

inductive issued :: "env \<Rightarrow> art \<Rightarrow> string set \<Rightarrow> bool" for env where
  start: "init base_check v a b b2 ph ta = Inr s \<Longrightarrow> issued env s {}"
| call: "issued env s H \<Longrightarrow>
         issued env (fst (learn env s x))
           (H \<union> tag ` set (prototypes (self (resonate env s x))))"

lemma inv_tags:
  assumes "inv env s"
  shows "tag ` set (prototypes s) \<subseteq> ptag ` {1..cycle s}"
proof
  fix t assume "t \<in> tag ` set (prototypes s)"
  then obtain p where p: "p \<in> set (prototypes s)" "t = tag p" by auto
  with assms have "tag p = ptag (birth p)" "1 \<le> birth p" "birth p \<le> cycle s"
    by (auto simp: inv_def list_all_iff wf_ident_def ident_def)
  with p show "t \<in> ptag ` {1..cycle s}" by auto
qed

lemma learn_tags_subset:
  "tag ` set (prototypes (fst (learn env s x))) \<subseteq> tag ` set (prototypes (self (resonate env s x)))"
  by (auto simp: learn_fst prune_eq)

lemma issued_inv:
  assumes "issued env s H"
  shows "reachable env s \<and> tag ` set (prototypes s) \<subseteq> H \<and> H \<subseteq> ptag ` {1..cycle s}"
  using assms
proof (induction rule: issued.induct)
  case (start base_check v a b b2 ph ta s)
  then show ?case
    by (auto intro: reachable.constructed simp: init_def split: option.splits)
next
  case (call s H x)
  let ?m = "self (resonate env s x)"
  from call.IH have r: "reachable env s" and H: "H \<subseteq> ptag ` {1..cycle s}" by simp_all
  have "inv env ?m" using reachable_inv [OF r] by (rule inv_resonate)
  then have "tag ` set (prototypes ?m) \<subseteq> ptag ` {1..cycle ?m}" by (rule inv_tags)
  moreover have "cycle ?m = cycle s + 1" by (subst resonate_fields) simp
  ultimately have m: "tag ` set (prototypes ?m) \<subseteq> ptag ` {1..cycle s + 1}" by simp
  have "ptag ` {1..cycle s} \<subseteq> ptag ` {1..cycle s + 1}" by (intro image_mono) auto
  with H m have "H \<union> tag ` set (prototypes ?m) \<subseteq> ptag ` {1..cycle (fst (learn env s x))}"
    by (simp add: learn_config)
  moreover have "reachable env (fst (learn env s x))" using r by (rule reachable.learned)
  moreover have "tag ` set (prototypes (fst (learn env s x))) \<subseteq> H \<union> tag ` set (prototypes ?m)"
    using learn_tags_subset [of env s x] by blast
  ultimately show ?case by simp
qed

section \<open>Worked instances\<close>

text \<open>
  Concrete parameters for the evaluations below. The scoring methods raise
  \<^verbatim>\<open>ValueError\<close> when the input's length differs from that of a stored prototype and
  answer the given score lists otherwise; the prototype constructor sets \<open>lastactive\<close> to
  the birth cycle and \<open>counter\<close> to 0. The general theorems do not depend on them.
\<close>

definition scoring_table :: "real list \<Rightarrow> real list \<Rightarrow> env" where
  "scoring_table T M =
     \<lparr>choice = (\<lambda>s x. if list_all (\<lambda>p. length (weights p) = length x) (prototypes s)
                       then Inr T else Inl ValueError),
      match = (\<lambda>s x. if list_all (\<lambda>p. length (weights p) = length x) (prototypes s)
                      then Inr M else Inl ValueError),
      lastactive0 = (\<lambda>b. b),
      counter0 = 0\<rparr>"

text \<open>
  Modelled from the spec: the validation of \<^verbatim>\<open>BaseART.__init__\<close> (its source is
  missing), which according to the specification rejects a vigilance outside its score range
  and a negative learning rate.
\<close>

definition base_check_spec :: "real \<Rightarrow> real \<Rightarrow> real \<Rightarrow> error option" where
  "base_check_spec v a b = (if 0 \<le> v \<and> v \<le> 1 \<and> 0 \<le> b then None else Some ValueError)"

definition started :: "int \<Rightarrow> int \<Rightarrow> art" where
  "started ph ta =
     \<lparr>vigilance = 1/2, alpha = 1/100, beta = 1/2, prototypes = [],
      beta2 = 1/4, phi = ph, tau = ta, cycle = 0, clusters = [], network = empty_graph\<rparr>"

lemma init_started: "init base_check_spec (1/2) (1/100) (1/2) (1/4) ph ta = Inr (started ph ta)"
  by (simp add: init_def base_check_spec_def started_def)

lemmas run_simps = learn_def resonate_def Let_def add_prototype_def add_node_def
  empty_graph_def prune_eq stale_def new_prototype_def ptag_1 ptag_2 remove_nodes_from_def
  started_def scoring_table_def first_winner_loop.simps second_winner_loop.simps
  index_max_def fuzzy_update_def np_broadcast_def np_scale_def edges_view_def adjacent_def
  add_edge_def

text \<open>
  States that the evaluations below reach: the store after a first input, two prototypes that an
  input can both resonate with, and a store whose first prototype has been pruned.
\<close>

definition one_prototype :: "int \<Rightarrow> int \<Rightarrow> art" where
  "one_prototype ph ta =
     \<lparr>vigilance = 1/2, alpha = 1/100, beta = 1/2,
      prototypes = [\<lparr>weights = [1, 0], tag = ''p1'', birth = 1, lastactive = 1, counter = 0\<rparr>],
      beta2 = 1/4, phi = ph, tau = ta, cycle = 1, clusters = [],
      network = \<lparr>gnodes = [''p1''], gedges = []\<rparr>\<rparr>"

definition two_prototypes :: art where
  "two_prototypes =
     \<lparr>vigilance = 1/2, alpha = 1/100, beta = 1/2,
      prototypes =
        [\<lparr>weights = [1, 0], tag = ''p1'', birth = 1, lastactive = 1, counter = 0\<rparr>,
         \<lparr>weights = [0, 1], tag = ''p2'', birth = 2, lastactive = 2, counter = 0\<rparr>],
      beta2 = 1/4, phi = 10, tau = 10, cycle = 2, clusters = [],
      network = \<lparr>gnodes = [''p1'', ''p2''], gedges = []\<rparr>\<rparr>"

definition after_pruning :: art where
  "after_pruning =
     \<lparr>vigilance = 1/2, alpha = 1/100, beta = 1/2,
       prototypes =
         [\<lparr>weights = [1/2, 1/2], tag = ''p2'', birth = 2, lastactive = 2, counter = 0\<rparr>],
       beta2 = 1/4, phi = 0, tau = 0, cycle = 2, clusters = [],
       network = \<lparr>gnodes = [''p2''], gedges = []\<rparr>\<rparr>"

lemma learn_first:
  "0 \<le> ph \<Longrightarrow> learn (scoring_table T M) (started ph ta) [1, 0] = (one_prototype ph ta, None)"
  by (simp add: run_simps one_prototype_def)

lemma learn_second:
  "learn (scoring_table [50/101] [1/2]) (one_prototype 10 10) [1/2, 1/2] =
     (\<lparr>vigilance = 1/2, alpha = 1/100, beta = 1/2,
       prototypes =
         [\<lparr>weights = [3/4, 0], tag = ''p1'', birth = 1, lastactive = 1, counter = 1\<rparr>,
          \<lparr>weights = [1/2, 1/2], tag = ''p2'', birth = 2, lastactive = 2, counter = 0\<rparr>],
       beta2 = 1/4, phi = 10, tau = 10, cycle = 2, clusters = [],
       network = \<lparr>gnodes = [''p1'', ''p2''], gedges = []\<rparr>\<rparr>, None)"
  by (simp add: run_simps one_prototype_def)

lemma learn_second_new:
  "learn (scoring_table [0] [0]) (one_prototype 10 10) [0, 1] = (two_prototypes, None)"
  by (simp add: run_simps one_prototype_def two_prototypes_def)

lemma resonate_third:
  "resonate (scoring_table [50/101, 50/101] [1/2, 1/2]) two_prototypes [1/2, 1/2] =
     \<lparr>self = \<lparr>vigilance = 1/2, alpha = 1/100, beta = 1/2,
       prototypes =
         [\<lparr>weights = [3/4, 0], tag = ''p1'', birth = 1, lastactive = 1, counter = 1\<rparr>,
          \<lparr>weights = [5/8, 0], tag = ''p2'', birth = 2, lastactive = 2, counter = 0\<rparr>],
       beta2 = 1/4, phi = 10, tau = 10, cycle = 3, clusters = [],
       network = \<lparr>gnodes = [''p1'', ''p2''], gedges = [(''p1'', ''p2'')]\<rparr>\<rparr>,
      scores = [-1, 50/101], IFW = Some 0, ISW = Some 1, raised = None\<rparr>"
  by (simp add: run_simps two_prototypes_def)

lemma learn_third:
  "learn (scoring_table [50/101, 50/101] [1/2, 1/2]) two_prototypes [1/2, 1/2] =
     (\<lparr>vigilance = 1/2, alpha = 1/100, beta = 1/2,
       prototypes =
         [\<lparr>weights = [3/4, 0], tag = ''p1'', birth = 1, lastactive = 1, counter = 1\<rparr>,
          \<lparr>weights = [5/8, 0], tag = ''p2'', birth = 2, lastactive = 2, counter = 0\<rparr>],
       beta2 = 1/4, phi = 10, tau = 10, cycle = 3, clusters = [],
       network = \<lparr>gnodes = [''p1'', ''p2''], gedges = [(''p1'', ''p2'')]\<rparr>\<rparr>, None)"
  by (simp add: learn_def resonate_third)

lemma learn_second_stale:
  "learn (scoring_table [50/101] [1/2]) (one_prototype 0 0) [1/2, 1/2] =
     (\<lparr>vigilance = 1/2, alpha = 1/100, beta = 1/2,
       prototypes =
         [\<lparr>weights = [1/2, 1/2], tag = ''p2'', birth = 2, lastactive = 2, counter = 0\<rparr>],
       beta2 = 1/4, phi = 0, tau = 0, cycle = 2, clusters = [],
       network = \<lparr>gnodes = [''p2''], gedges = []\<rparr>\<rparr>, None)"
  by (simp add: run_simps one_prototype_def)

lemma resonate_first:
  "self (resonate (scoring_table T M) (started ph ta) [1, 0]) =
     (one_prototype ph ta)"
  by (simp add: run_simps one_prototype_def)

lemma resonate_second_stale:
  "tag ` set (prototypes (self (resonate (scoring_table [50/101] [1/2]) (one_prototype 0 0)
      [1/2, 1/2]))) = {''p1'', ''p2''}"
  by (simp add: run_simps one_prototype_def)

lemma reachable_one:
  assumes "0 \<le> ph"
  shows "reachable (scoring_table T M) (one_prototype ph ta)"
proof -
  have "reachable (scoring_table T M) (started ph ta)"
    using init_started by (rule reachable.constructed)
  then have "reachable (scoring_table T M) (fst (learn (scoring_table T M) (started ph ta) [1, 0]))"
    by (rule reachable.learned)
  with assms show ?thesis by (simp add: learn_first)
qed

lemma reachable_two: "reachable (scoring_table [0] [0]) two_prototypes"
proof -
  have "reachable (scoring_table [0] [0])
          (fst (learn (scoring_table [0] [0]) (one_prototype 10 10) [0, 1]))"
    using reachable_one [of 10] by (intro reachable.learned) simp
  then show ?thesis by (simp add: learn_second_new)
qed

lemma issued_after_pruning:
  "issued (scoring_table [50/101] [1/2]) after_pruning {''p1'', ''p2''}"
proof -
  let ?E = "scoring_table [50/101] [1/2]"
  have "issued ?E (started 0 0) {}" using init_started by (rule issued.start)
  then have "issued ?E (fst (learn ?E (started 0 0) [1, 0]))
      ({} \<union> tag ` set (prototypes (self (resonate ?E (started 0 0) [1, 0]))))"
    by (rule issued.call)
  then have "issued ?E (one_prototype 0 0) {''p1''}"
    by (simp add: learn_first resonate_first) (simp add: one_prototype_def)
  then have "issued ?E (fst (learn ?E (one_prototype 0 0) [1/2, 1/2]))
      ({''p1''} \<union> tag ` set (prototypes (self (resonate ?E (one_prototype 0 0) [1/2, 1/2]))))"
    by (rule issued.call)
  then have "issued ?E after_pruning ({''p1''} \<union> {''p1'', ''p2''})"
    by (simp only: learn_second_stale resonate_second_stale fst_conv after_pruning_def)
  moreover have "{''p1''} \<union> {''p1'', ''p2''} = {''p1'', ''p2''}" by auto
  ultimately show ?thesis by (simp only:)
qed

section \<open>The claims\<close>

text \<open>
  C1, as amended. The resonance scenario with vigilance 0.5, alpha 0.01 and beta 0.5: learning
  \<open>A\<close> has created \<open>p1\<close>; an input \<open>B\<close> of the same dimension whose match score against
  \<open>p1\<close> is at least 0.5, and whose choice score is not negative, is learned without
  exception, sets the weights of \<open>p1\<close> elementwise to \<open>0.5 A + 0.5 min(B, A)\<close> and adds no
  edge. After the call \<open>p1\<close> is stored with these weights, unless the pruning step of the same
  call removes it as stale.
\<close>

theorem resonance_scenario:
  assumes "init base_check (1/2) (1/100) (1/2) b2 ph ta = Inr s0"
    and "learn env s0 A = (s1, r1)" and "prototypes s1 \<noteq> []"
    and "choice env (s1\<lparr>cycle := 2\<rparr>) B = Inr [t]" and "0 \<le> t"
    and "match env (s1\<lparr>cycle := 2\<rparr>) B = Inr [m]" and "1/2 \<le> m"
    and "length B = length A"
  shows "snd (learn env s1 B) = None \<and>
         gedges (network (fst (learn env s1 B))) = [] \<and>
         filter (\<lambda>q. tag q = ''p1'') (prototypes (fst (learn env s1 B))) =
           (if ta < 2 \<and> ph < 2 - lastactive0 env 1 then []
            else [\<lparr>weights = map2 (\<lambda>a b. 1/2 * a + 1/2 * min b a) A B, tag = ''p1'',
                   birth = 1, lastactive = lastactive0 env 1, counter = counter0 env + 1\<rparr>])"
proof -
  let ?p1 = "new_prototype env A ''p1'' 1"
  let ?g1 = "\<lparr>gnodes = [''p1''], gedges = []\<rparr>"
  from assms(2,3) have "prototypes (fst (learn env s0 A)) \<noteq> []" "s1 = fst (learn env s0 A)"
    by simp_all
  with first_learn [OF assms(1)]
  have s1: "s1 = s0\<lparr>cycle := 1, prototypes := [?p1], network := ?g1\<rparr>" by simp
  from assms(1) have cfg: "vigilance s0 = 1/2" "beta s0 = 1/2" "phi s0 = ph" "tau s0 = ta"
    by (auto simp: init_def split: option.splits)
  let ?s = "s1\<lparr>cycle := 2\<rparr>"
  let ?w = "map2 (\<lambda>a b. 1/2 * a + 1/2 * min b a) A B"
  let ?q1 = "?p1\<lparr>weights := ?w, counter := counter ?p1 + 1\<rparr>"
  have loop: "first_winner_loop ?s B [m] [t] =
     \<lparr>self = ?s\<lparr>prototypes := [?q1]\<rparr>,
      scores = [- 1], IFW = Some 0, ISW = None, raised = None\<rparr>"
    using assms(5,7,8) single_resonance [of ?s ?p1 t m B]
    by (simp add: s1 cfg new_prototype_def)
  have res: "resonate env s1 B =
     \<lparr>self = ?s\<lparr>prototypes := [?q1, new_prototype env B ''p2'' 2],
                 network := \<lparr>gnodes = [''p1'', ''p2''], gedges = []\<rparr>\<rparr>,
      scores = [- 1], IFW = Some 0, ISW = None, raised = None\<rparr>"
    using assms(4,6) loop
    by (simp add: resonate_def s1 add_prototype_def add_node_def ptag_2)
  show ?thesis
    unfolding learn_def res
    by (simp add: Let_def prune_eq stale_def s1 cfg new_prototype_def remove_nodes_from_def)
qed

theorem resonance_scenario_witness:
  "init base_check_spec (1/2) (1/100) (1/2) (1/4) 10 10 = Inr (started 10 10) \<and>
   learn (scoring_table [50/101] [1/2]) (started 10 10) [1, 0] = (one_prototype 10 10, None) \<and>
   choice (scoring_table [50/101] [1/2]) ((one_prototype 10 10)\<lparr>cycle := 2\<rparr>) [1/2, 1/2] =
     Inr [50/101] \<and>
   match (scoring_table [50/101] [1/2]) ((one_prototype 10 10)\<lparr>cycle := 2\<rparr>) [1/2, 1/2] =
     Inr [1/2] \<and>
   snd (learn (scoring_table [50/101] [1/2]) (one_prototype 10 10) [1/2, 1/2]) = None \<and>
   gedges (network (fst (learn (scoring_table [50/101] [1/2]) (one_prototype 10 10)
     [1/2, 1/2]))) = [] \<and>
   filter (\<lambda>q. tag q = ''p1'')
     (prototypes (fst (learn (scoring_table [50/101] [1/2]) (one_prototype 10 10) [1/2, 1/2]))) =
     [\<lparr>weights = [3/4, 0], tag = ''p1'', birth = 1, lastactive = 1, counter = 1\<rparr>]"
proof -
  let ?E = "scoring_table [50/101] [1/2]"
  have l: "learn ?E (started 10 10) [1, 0] = (one_prototype 10 10, None)"
    by (rule learn_first) simp
  have ne: "prototypes (one_prototype 10 10) \<noteq> []" by (simp add: one_prototype_def)
  have c: "choice ?E ((one_prototype 10 10)\<lparr>cycle := 2\<rparr>) [1/2, 1/2] = Inr [50/101]"
    by (simp add: scoring_table_def one_prototype_def)
  have m: "match ?E ((one_prototype 10 10)\<lparr>cycle := 2\<rparr>) [1/2, 1/2] = Inr [1/2]"
    by (simp add: scoring_table_def one_prototype_def)
  have t: "(0::real) \<le> 50/101" "(1/2::real) \<le> 1/2" by simp_all
  have len: "length [1/2, 1/2 :: real] = length [1, 0 :: real]" by simp
  from resonance_scenario [OF init_started l ne c t(1) m t(2) len] init_started l c m
  show ?thesis by (simp add: scoring_table_def)
qed

text \<open>
  The claim as stated fails at \<open>A = [1, 0]\<close>, \<open>B = [1/2, 1/2]\<close>: the weights of
  \<open>p1\<close> become \<open>[3/4, 0]\<close>, where \<open>0.5 B + 0.5 min(B, A)\<close> is \<open>[1/2, 1/4]\<close>, and
  the store holds a second prototype after the call.
\<close>

theorem resonance_scenario_counterexample:
  "prototypes (fst (learn (scoring_table [50/101] [1/2])
      (fst (learn (scoring_table [50/101] [1/2]) (started 10 10) [1, 0])) [1/2, 1/2])) =
     [\<lparr>weights = [3/4, 0], tag = ''p1'', birth = 1, lastactive = 1, counter = 1\<rparr>,
      \<lparr>weights = [1/2, 1/2], tag = ''p2'', birth = 2, lastactive = 2, counter = 0\<rparr>] \<and>
   [1/2 * (1/2) + 1/2 * min (1/2) 1, 1/2 * (1/2) + 1/2 * min (1/2) 0] = [1/2, 1/4 :: real]"
  by (simp add: learn_first learn_second)

text \<open>
  C2. The failing input: two stored prototypes that both resonate. The second winner
  \<open>p2\<close> ends with the weights computed from the first winner's updated weights and the rate
  \<open>beta\<close>, not with the weights that its own weights and \<open>beta2\<close> give.
\<close>

theorem second_winner_update_at_input:
  "prototypes (fst (learn (scoring_table [50/101, 50/101] [1/2, 1/2]) two_prototypes
      [1/2, 1/2])) ! 1 =
     \<lparr>weights = [5/8, 0], tag = ''p2'', birth = 2, lastactive = 2, counter = 0\<rparr> \<and>
   fuzzy_update (beta two_prototypes) [1/2, 1/2] [3/4, 0] = Inr [5/8, 0] \<and>
   fuzzy_update (beta2 two_prototypes) [1/2, 1/2] (weights (prototypes two_prototypes ! 1)) =
     Inr [0, 7/8]"
  by (simp add: learn_third)
     (simp add: two_prototypes_def fuzzy_update_def np_broadcast_def np_scale_def)

text \<open>
  C3. In every reachable state, that is after construction and after every call of
  \<^verbatim>\<open>learn\<close> whatever the inputs, the nodes of the topology graph are exactly the tags of
  the stored prototypes.
\<close>

theorem graph_nodes_mirror_store:
  assumes "reachable env s"
  shows "set (gnodes (network s)) = tag ` set (prototypes s)"
  using reachable_inv [OF assms] by (simp add: inv_def)

theorem graph_nodes_mirror_store_witness:
  "reachable (scoring_table [0] [0]) two_prototypes \<and>
   set (gnodes (network two_prototypes)) = tag ` set (prototypes two_prototypes)"
  using graph_nodes_mirror_store [OF reachable_two] reachable_two by simp

text \<open>
  C4. Staleness: a prototype of the store that is stale at a cycle greater than \<open>tau\<close>,
  be it at the cycle before the call or at the cycle the call runs at, is gone from the store
  and from the graph when the call of \<^verbatim>\<open>learn\<close> returns; and the loop of
  \<^verbatim>\<open>__prune\<close> skips no entry: no prototype left in the store is stale.
\<close>

theorem stale_prototypes_removed:
  assumes "reachable env s" and "learn env s x = (s', None)" and "p \<in> set (prototypes s)"
    and "(stale s p \<and> tau s < cycle s) \<or> (stale s' p \<and> tau s' < cycle s')"
  shows "tag p \<notin> tag ` set (prototypes s') \<and> tag p \<notin> set (gnodes (network s')) \<and>
         (\<forall>q\<in>set (prototypes s'). \<not> stale s' q)"
proof -
  let ?m = "self (resonate env s x)"
  from assms(2) have s': "s' = fst (learn env s x)" and ok: "raised (resonate env s x) = None"
    using learn_snd [of env s x] by simp_all
  from assms(4) have p: "stale s' p" and due: "cycle s + 1 > tau s"
    by (auto simp: s' learn_config stale_def)
  from ok due have pr: "s' = prune ?m" by (simp add: s' learn_fst)
  have st: "stale s' = stale ?m" by (simp add: pr prune_eq stale_def fun_eq_iff)
  have ps: "prototypes s' = filter (\<lambda>p. \<not> stale ?m p) (prototypes ?m)"
    by (simp add: pr prune_eq)
  have 1: "\<forall>q\<in>set (prototypes s'). \<not> stale s' q"
    by (simp add: st ps)
  have im: "inv env ?m" using reachable_inv [OF assms(1)] by (rule inv_resonate)
  then have inj: "inj_on tag (set (prototypes ?m))" by (simp add: inv_def distinct_map)
  have i': "inv env s'" using reachable_learn_result [OF assms(1,2)] by (rule reachable_inv)
  have 2: "tag p \<notin> tag ` set (prototypes s')"
  proof
    assume "tag p \<in> tag ` set (prototypes s')"
    then obtain q where q: "q \<in> set (prototypes ?m)" "\<not> stale ?m q" "tag q = tag p"
      by (auto simp: ps)
    from assms(3) have "ident p \<in> set (map ident (prototypes s))" by simp
    also have "\<dots> = set (map ident (take (length (prototypes s)) (prototypes ?m)))"
      by (simp only: resonate_kept)
    also have "\<dots> \<subseteq> set (map ident (prototypes ?m))"
      by (auto dest: in_set_takeD)
    finally obtain p' where p': "p' \<in> set (prototypes ?m)" "ident p' = ident p" by auto
    then have "tag p' = tag q" "lastactive p' = lastactive p" using q(3) by (simp_all add: ident_def)
    with inj p'(1) q(1) have "p' = q" by (auto dest: inj_onD)
    with \<open>lastactive p' = lastactive p\<close> q(2) p show False by (simp add: st stale_def)
  qed
  have 3: "set (gnodes (network s')) = tag ` set (prototypes s')"
    using i' by (simp add: inv_def)
  from 1 2 3 show ?thesis by simp
qed

theorem stale_prototypes_removed_witness:
  "reachable (scoring_table [50/101] [1/2]) (one_prototype 0 0) \<and>
   tag ` set (prototypes (one_prototype 0 0)) = {''p1''} \<and>
   ''p1'' \<notin> tag ` set (prototypes
      (fst (learn (scoring_table [50/101] [1/2]) (one_prototype 0 0) [1/2, 1/2]))) \<and>
   ''p1'' \<notin> set (gnodes (network
      (fst (learn (scoring_table [50/101] [1/2]) (one_prototype 0 0) [1/2, 1/2]))))"
proof -
  let ?E = "scoring_table [50/101] [1/2]"
  let ?p = "\<lparr>weights = [1, 0], tag = ''p1'', birth = 1, lastactive = 1, counter = 0\<rparr>"
  let ?s' = "\<lparr>vigilance = 1/2, alpha = 1/100, beta = 1/2,
       prototypes =
         [\<lparr>weights = [1/2, 1/2], tag = ''p2'', birth = 2, lastactive = 2, counter = 0\<rparr>],
       beta2 = 1/4, phi = 0, tau = 0, cycle = 2, clusters = [],
       network = \<lparr>gnodes = [''p2''], gedges = []\<rparr>\<rparr>"
  have r: "reachable ?E (one_prototype 0 0)" by (rule reachable_one) simp
  have p: "?p \<in> set (prototypes (one_prototype 0 0))" by (simp add: one_prototype_def)
  have st: "(stale (one_prototype 0 0) ?p \<and> tau (one_prototype 0 0) < cycle (one_prototype 0 0))
      \<or> (stale ?s' ?p \<and> tau ?s' < cycle ?s')"
    by (simp add: stale_def)
  from stale_prototypes_removed [OF r learn_second_stale p st]
  have "''p1'' \<notin> tag ` set (prototypes ?s') \<and> ''p1'' \<notin> set (gnodes (network ?s'))"
    by simp
  with r show ?thesis by (simp add: learn_second_stale) (simp add: one_prototype_def)
qed

text \<open>
  C5, as amended. \<^verbatim>\<open>learn\<close> is not atomic: when a scoring method raises, the call fails
  with the store and the graph untouched, but with the cycle counter already incremented.
\<close>

theorem scoring_failure_keeps_store:
  assumes "prototypes s \<noteq> []"
    and "choice env (s\<lparr>cycle := cycle s + 1\<rparr>) x = Inl e \<or>
         (\<exists>T. choice env (s\<lparr>cycle := cycle s + 1\<rparr>) x = Inr T \<and>
              match env (s\<lparr>cycle := cycle s + 1\<rparr>) x = Inl e)"
  shows "learn env s x = (s\<lparr>cycle := cycle s + 1\<rparr>, Some e)"
  using assms by (auto simp: learn_def resonate_def)

theorem scoring_failure_keeps_store_witness:
  "prototypes (one_prototype 10 10) \<noteq> [] \<and>
   choice (scoring_table [50/101] [1/2])
     ((one_prototype 10 10)\<lparr>cycle := cycle (one_prototype 10 10) + 1\<rparr>) [1, 2, 3] =
     Inl ValueError \<and>
   learn (scoring_table [50/101] [1/2]) (one_prototype 10 10) [1, 2, 3] =
     ((one_prototype 10 10)\<lparr>cycle := cycle (one_prototype 10 10) + 1\<rparr>, Some ValueError)"
proof -
  let ?E = "scoring_table [50/101] [1/2]"
  have ne: "prototypes (one_prototype 10 10) \<noteq> []" by (simp add: one_prototype_def)
  have c: "choice ?E ((one_prototype 10 10)\<lparr>cycle := cycle (one_prototype 10 10) + 1\<rparr>) [1, 2, 3] =
     Inl ValueError"
    by (simp add: scoring_table_def one_prototype_def)
  from scoring_failure_keeps_store [OF ne disjI1, OF c] ne c show ?thesis by simp
qed

text \<open>
  An input of the wrong dimension makes the scoring method raise; the call fails and the
  cycle counter has moved from 1 to 2.
\<close>

theorem learn_atomicity_counterexample:
  "snd (learn (scoring_table [50/101] [1/2]) (one_prototype 10 10) [1, 2, 3]) = Some ValueError \<and>
   cycle (fst (learn (scoring_table [50/101] [1/2]) (one_prototype 10 10) [1, 2, 3])) = 2 \<and>
   cycle (one_prototype 10 10) = 1"
  by (simp add: run_simps one_prototype_def)

text \<open>
  C6, as amended. The constructor checks nothing itself: it fails exactly when the
  constructor of the base class rejects vigilance, alpha and beta, and otherwise stores
  \<open>beta2\<close>, \<open>phi\<close> and \<open>tau\<close> as they are given, negative or not.
\<close>

theorem constructor_stores_unchecked:
  "isl (init base_check v a b b2 ph ta) = (base_check v a b \<noteq> None) \<and>
   (base_check v a b = None \<longrightarrow>
      init base_check v a b b2 ph ta =
        Inr \<lparr>vigilance = v, alpha = a, beta = b, prototypes = [],
             beta2 = b2, phi = ph, tau = ta, cycle = 0, clusters = [],
             network = empty_graph\<rparr>)"
  by (simp add: init_def split: option.splits)

theorem constructor_stores_unchecked_witness:
  "base_check_spec (1/2) (1/100) (1/2) = None \<and>
   init base_check_spec (1/2) (1/100) (1/2) (1/4) 0 5 =
        Inr \<lparr>vigilance = 1/2, alpha = 1/100, beta = 1/2, prototypes = [],
             beta2 = 1/4, phi = 0, tau = 5, cycle = 0, clusters = [],
             network = empty_graph\<rparr>"
proof -
  have "base_check_spec (1/2) (1/100) (1/2) = None" by (simp add: base_check_spec_def)
  with constructor_stores_unchecked [of base_check_spec "1/2" "1/100" "1/2" "1/4" 0 5]
  show ?thesis by simp
qed

text \<open>
  Negative \<open>beta2\<close>, \<open>phi\<close> and \<open>tau\<close> are accepted, even by a base constructor
  that validates its own arguments.
\<close>

theorem constructor_counterexample:
  "init base_check_spec (1/2) (1/100) (1/2) (- 1) (- 1) (- 1) =
     Inr \<lparr>vigilance = 1/2, alpha = 1/100, beta = 1/2, prototypes = [],
          beta2 = - 1, phi = - 1, tau = - 1, cycle = 0, clusters = [],
          network = empty_graph\<rparr>"
  by (simp add: init_def base_check_spec_def)

text \<open>A stream of inputs, presented one call after the other.\<close>

definition learn_all :: "env \<Rightarrow> art \<Rightarrow> real list list \<Rightarrow> art" where
  "learn_all env s xs = foldl (\<lambda>s x. fst (learn env s x)) s xs"

lemma learn_all_config:
  "cycle (learn_all env s xs) = cycle s + int (length xs)"
  "tau (learn_all env s xs) = tau s"
  by (induction xs arbitrary: s) (simp_all add: learn_all_def learn_config)

lemma learn_keeps_before_warmup:
  assumes "cycle s + 1 \<le> tau s"
  shows "prefix (map ident (prototypes s)) (map ident (prototypes (fst (learn env s x))))"
proof -
  from assms have "fst (learn env s x) = self (resonate env s x)"
    by (simp add: learn_fst)
  with resonate_ident [of env s x] show ?thesis by auto
qed

text \<open>
  C7. No pruning before warm-up: whatever inputs are presented, as long as the cycle counter
  reached is at most \<open>tau\<close>, the store has not shrunk: the prototypes it held at the start
  are still there, in place, with their tags, births and last-active cycles.
\<close>

theorem no_pruning_before_warmup:
  assumes "cycle (learn_all env s xs) \<le> tau s"
  shows "prefix (map ident (prototypes s)) (map ident (prototypes (learn_all env s xs))) \<and>
         length (prototypes s) \<le> length (prototypes (learn_all env s xs))"
proof -
  have "prefix (map ident (prototypes s)) (map ident (prototypes (learn_all env s xs)))"
    using assms
  proof (induction xs arbitrary: s)
    case Nil
    then show ?case by (simp add: learn_all_def)
  next
    case (Cons x xs)
    let ?s1 = "fst (learn env s x)"
    have eq: "learn_all env s (x # xs) = learn_all env ?s1 xs"
      by (simp add: learn_all_def)
    from Cons.prems have le: "cycle (learn_all env ?s1 xs) \<le> tau ?s1"
      by (simp add: eq learn_config)
    then have "cycle s + 1 \<le> tau s"
      by (simp add: learn_all_config learn_config)
    then have "prefix (map ident (prototypes s)) (map ident (prototypes ?s1))"
      by (rule learn_keeps_before_warmup)
    moreover have "prefix (map ident (prototypes ?s1))
        (map ident (prototypes (learn_all env ?s1 xs)))"
      using le by (rule Cons.IH)
    ultimately show ?case unfolding eq by (rule prefix_order.trans)
  qed
  moreover from this have "length (map ident (prototypes s)) \<le>
      length (map ident (prototypes (learn_all env s xs)))"
    by (rule prefix_length_le)
  ultimately show ?thesis by simp
qed

theorem no_pruning_before_warmup_witness:
  "cycle (learn_all (scoring_table [50/101] [1/2]) (one_prototype 10 10) [[1/2, 1/2]])
     \<le> tau (one_prototype 10 10) \<and>
   prefix (map ident (prototypes (one_prototype 10 10)))
     (map ident (prototypes
        (learn_all (scoring_table [50/101] [1/2]) (one_prototype 10 10) [[1/2, 1/2]]))) \<and>
   length (prototypes (one_prototype 10 10)) \<le>
     length (prototypes
        (learn_all (scoring_table [50/101] [1/2]) (one_prototype 10 10) [[1/2, 1/2]]))"
proof -
  have h: "cycle (learn_all (scoring_table [50/101] [1/2]) (one_prototype 10 10) [[1/2, 1/2]])
     \<le> tau (one_prototype 10 10)"
    by (simp add: learn_all_def learn_second) (simp add: one_prototype_def)
  from no_pruning_before_warmup [OF h] h show ?thesis by simp
qed

text \<open>
  C8. Tag uniqueness: at any time the stored prototypes have pairwise different tags, during
  a call as well as after it, and a prototype created by the next call gets a tag that no
  prototype has had before, whether that prototype is still stored or has been pruned.
\<close>

theorem tags_never_reused:
  assumes "issued env s H"
  shows "distinct (map tag (prototypes s)) \<and>
         tag ` set (prototypes s) \<subseteq> H \<and>
         (\<forall>x. distinct (map tag (prototypes (self (resonate env s x)))) \<and>
              (\<forall>q\<in>set (drop (length (prototypes s)) (prototypes (self (resonate env s x)))).
                 tag q \<notin> H))"
proof -
  from issued_inv [OF assms] have r: "reachable env s" and sub: "tag ` set (prototypes s) \<subseteq> H"
    and H: "H \<subseteq> ptag ` {1..cycle s}" by simp_all
  have i: "inv env s" using r by (rule reachable_inv)
  then have c: "0 \<le> cycle s" by (simp add: inv_def)
  have fresh: "ptag (cycle s + 1) \<notin> H"
  proof
    assume "ptag (cycle s + 1) \<in> H"
    with H have "ptag (cycle s + 1) \<in> ptag ` {1..cycle s}" by blast
    then obtain k where k: "1 \<le> k" "k \<le> cycle s" "ptag (cycle s + 1) = ptag k" by auto
    with c have "cycle s + 1 = k" by (intro ptag_inj) auto
    with k(2) show False by simp
  qed
  have new: "\<forall>q\<in>set (drop (length (prototypes s)) (prototypes (self (resonate env s x)))).
                 tag q \<notin> H" for x
    using resonate_created [of s env x] fresh by (auto simp: new_prototype_def)
  have mid: "distinct (map tag (prototypes (self (resonate env s x))))" for x
    using inv_resonate [OF i, of x] by (simp add: inv_def)
  from i sub new mid show ?thesis by (simp add: inv_def)
qed

theorem tags_never_reused_witness:
  "issued (scoring_table [50/101] [1/2]) after_pruning {''p1'', ''p2''} \<and>
   distinct (map tag (prototypes after_pruning)) \<and>
   tag ` set (drop (length (prototypes after_pruning))
        (prototypes (self (resonate (scoring_table [50/101] [1/2]) after_pruning [1/2, 1/2]))))
     \<inter> {''p1'', ''p2''} = {}"
proof -
  from tags_never_reused [OF issued_after_pruning]
  have "distinct (map tag (prototypes after_pruning))"
    and "\<forall>q\<in>set (drop (length (prototypes after_pruning))
        (prototypes (self (resonate (scoring_table [50/101] [1/2]) after_pruning [1/2, 1/2])))).
      tag q \<notin> {''p1'', ''p2''}"
    by simp_all
  with issued_after_pruning show ?thesis by blast
qed

text \<open>
  C9. One call of \<^verbatim>\<open>learn\<close> adds at most one edge to the topology graph, and an edge it
  adds joins the tag of the first winner and the tag of the second winner: the edges that are new
  after the call lie in \<open>winners_edge\<close>, which is empty unless both winners resonated and
  otherwise holds the one pair of their tags.
\<close>

theorem at_most_one_new_edge:
  "edge_set (network (fst (learn env s x))) - edge_set (network s)
     \<subseteq> winners_edge (prototypes s) (resonate env s x) \<and>
   card (edge_set (network (fst (learn env s x))) - edge_set (network s)) \<le> 1"
proof -
  have sub: "edge_set (network (fst (learn env s x))) - edge_set (network s)
     \<subseteq> winners_edge (prototypes s) (resonate env s x)"
    using learn_edges [of env s x] by blast
  then have "card (edge_set (network (fst (learn env s x))) - edge_set (network s))
      \<le> card (winners_edge (prototypes s) (resonate env s x))"
    by (intro card_mono finite_winners_edge)
  with sub card_winners_edge [of "prototypes s" "resonate env s x"] show ?thesis by simp
qed

theorem at_most_one_new_edge_witness:
  "edge_set (network (fst (learn (scoring_table [50/101, 50/101] [1/2, 1/2]) two_prototypes
      [1/2, 1/2]))) - edge_set (network two_prototypes) \<subseteq> {{''p1'', ''p2''}} \<and>
   card (edge_set (network (fst (learn (scoring_table [50/101, 50/101] [1/2, 1/2]) two_prototypes
      [1/2, 1/2]))) - edge_set (network two_prototypes)) \<le> 1"
proof -
  have "winners_edge (prototypes two_prototypes)
          (resonate (scoring_table [50/101, 50/101] [1/2, 1/2]) two_prototypes [1/2, 1/2]) =
        {{''p1'', ''p2''}}"
    by (simp add: resonate_third winners_edge_def) (simp add: two_prototypes_def)
  with at_most_one_new_edge [of "scoring_table [50/101, 50/101] [1/2, 1/2]" two_prototypes
      "[1/2, 1/2]"]
  show ?thesis by simp
qed

text \<open>
  C10. \<^verbatim>\<open>learn\<close> never assigns \<open>lastactive\<close>. One call leaves the tag, birth and
  last-active cycle of every stored prototype as they were: what the store holds afterwards is
  a subsequence of what it held before, followed at most by the prototype created in this call.
  Hence in every reachable state a prototype's \<open>lastactive\<close> is still the value its
  constructor gave it, and the staleness test compares \<open>phi\<close> with the time since creation.
\<close>

theorem lastactive_fixed_at_creation:
  assumes "reachable env s"
  shows "(\<forall>p\<in>set (prototypes s).
            lastactive p = lastactive0 env (birth p) \<and>
            stale s p = (phi s < cycle s - lastactive0 env (birth p))) \<and>
         (\<forall>x. subseq (map ident (prototypes (fst (learn env s x))))
                (map ident (prototypes s) @
                 [ident (new_prototype env x (ptag (cycle s + 1)) (cycle s + 1))]))"
proof -
  have "list_all (wf_ident env (cycle s)) (map ident (prototypes s))"
    using reachable_inv [OF assms] by (simp add: inv_def)
  then have 1: "\<forall>p\<in>set (prototypes s). lastactive p = lastactive0 env (birth p)"
    by (auto simp: list_all_iff wf_ident_def ident_def)
  have 2: "subseq (map ident (prototypes (fst (learn env s x))))
                (map ident (prototypes s) @
                 [ident (new_prototype env x (ptag (cycle s + 1)) (cycle s + 1))])" for x
  proof -
    let ?m = "self (resonate env s x)"
    have "subseq (map ident (prototypes (fst (learn env s x)))) (map ident (prototypes ?m))"
      by (simp add: learn_fst prune_eq subseq_map)
    moreover have "subseq (map ident (prototypes ?m)) (map ident (prototypes s) @
                 [ident (new_prototype env x (ptag (cycle s + 1)) (cycle s + 1))])"
      using resonate_ident [of env s x] by auto
    ultimately show ?thesis by (rule subseq_order.trans)
  qed
  from 1 2 show ?thesis by (simp add: stale_def)
qed

theorem lastactive_fixed_at_creation_witness:
  "reachable (scoring_table [0] [0]) two_prototypes \<and>
   list_all (\<lambda>p. lastactive p = lastactive0 (scoring_table [0] [0]) (birth p))
     (prototypes two_prototypes) \<and>
   subseq (map ident (prototypes (fst (learn (scoring_table [0] [0]) two_prototypes [1/2, 1/2]))))
     (map ident (prototypes two_prototypes) @
      [ident (new_prototype (scoring_table [0] [0]) [1/2, 1/2]
         (ptag (cycle two_prototypes + 1)) (cycle two_prototypes + 1))])"
  using lastactive_fixed_at_creation [OF reachable_two] reachable_two
  by (simp add: list_all_iff)

end
